theory Spec2Isabelle
  imports Main "HOL-Library.Word"
begin

section \<open>Outcomes of Go calls\<close>

text \<open>
  A Go call either returns, panics (a slice expression out of range, the close of a closed
  channel, a method call through nil) or never returns. Each source function below is a
  total HOL function into this type, so that every panic and every endless loop of the
  source is a value of the model.
\<close>

datatype 'a outcome = Returns 'a | Panics | Diverges

type_synonym bytes = "char list"

text \<open>
  Go's \<open>error\<close> values that occur in the package: the two errors a context reports,
  \<open>errors.New\<close>, \<open>*exec.ExitError\<close> with its exit status and its \<open>Stderr\<close> field, and
  any other error of the operating system.
\<close>

datatype error =
    Canceled
  | DeadlineExceeded
  | errorString string
  | ExitError int bytes
  | SyscallError string

section \<open>The bounded capture buffer: \<open>prefixSuffixSaver\<close>\<close>

text \<open>
  The counter \<open>skipped\<close> is an \<open>int64\<close>: a 64-bit word, read as a signed number by
  \<open>sint\<close>, whose additions wrap around. \<open>Write\<close> drops the overage without copying it,
  so that the counter can pass \<open>2 ^ 63\<close> in a run. The fields \<open>N\<close> and \<open>suffixOff\<close> and
  the local lengths are Go's \<open>int\<close>; with a capacity \<open>N \<ge> 0\<close> every value computed from
  them lies between \<open>- N\<close> and the length of a slice, so that no operation on them wraps,
  and they are modelled as \<open>int\<close>. A slice is the list of its elements; the nil slice is
  the empty list (\<open>append\<close> of no element to a nil slice is nil, and no other empty slice
  is built here).
\<close>

record prefixSuffixSaver =
  N :: int
  prefix :: bytes
  suffix :: bytes
  suffixOff :: int
  skipped :: "64 word"

definition minInt :: "int \<Rightarrow> int \<Rightarrow> int" where
  "minInt a b = (if a < b then a else b)"

text \<open>
  \<open>fill\<close>: the first argument is \<open>w.N\<close>, the second the slice \<open>*dst\<close>; the result is
  the new \<open>*dst\<close> and the bytes of \<open>p\<close> that were not appended.
\<close>

definition fill :: "int \<Rightarrow> bytes \<Rightarrow> bytes \<Rightarrow> bytes \<times> bytes" where
  "fill n dst p =
     (let remain = n - int (length dst) in
      if remain > 0 then
        (let add = minInt (int (length p)) remain
         in (dst @ take (nat add) p, drop (nat add) p))
      else (dst, p))"

text \<open>
  The loop of \<open>Write\<close> that overwrites the ring. \<open>w.suffix[w.suffixOff:]\<close> panics unless
  \<open>0 \<le> suffixOff \<le> len(suffix)\<close>; \<open>copy\<close> moves \<open>n = min(len(dst), len(p))\<close> bytes.
  An iteration that copies nothing and leaves \<open>suffixOff\<close> as it was changes no variable,
  so the loop runs forever from there: that is the value \<open>Diverges\<close>.
\<close>

function Write_loop :: "prefixSuffixSaver \<Rightarrow> bytes \<Rightarrow> prefixSuffixSaver outcome" where
  "Write_loop w p =
     (if length p > 0 then
        (if 0 \<le> suffixOff w \<and> suffixOff w \<le> int (length (suffix w)) then
           (let off = nat (suffixOff w);
                n = min (length (suffix w) - off) (length p);
                off' = suffixOff w + int n;
                w' = w\<lparr>suffix := take off (suffix w) @ take n p @ drop (off + n) (suffix w),
                       skipped := skipped w + word_of_int (int n),
                       suffixOff := (if off' = N w then 0 else off')\<rparr>
            in if n = 0 \<and> suffixOff w' = suffixOff w then Diverges
               else Write_loop w' (drop n p))
         else Panics)
      else Returns w)"
  by pat_completeness auto
termination
proof (relation "measure (\<lambda>(w, p). 2 * length p + (if suffixOff w = N w \<and> N w \<noteq> 0 then 1 else 0))", goal_cases)
  case 1
  show ?case by simp
next
  case (2 w p off n off' w')
  show ?case
  proof (cases "n = 0")
    case True
    with 2 have "suffixOff w' \<noteq> suffixOff w" by blast
    with 2 True have "suffixOff w = N w \<and> N w \<noteq> 0 \<and> suffixOff w' = 0"
      by (simp split: if_splits)
    with True show ?thesis by simp
  next
    case False
    with 2 have "n \<le> length p" by simp
    with False have "2 * length (drop n p) + 1 < 2 * length p" by simp
    then show ?thesis by simp
  qed
qed

declare Write_loop.simps [simp del]

text \<open>
  \<open>Write\<close> returns the updated buffer with the two results \<open>(n, err)\<close> of the source.
  \<open>p[overage:]\<close> panics when \<open>overage > len(p)\<close>.
\<close>

definition Write :: "prefixSuffixSaver \<Rightarrow> bytes \<Rightarrow> (prefixSuffixSaver \<times> int \<times> error option) outcome" where
  "Write w p =
     (let lenp = int (length p);
          (pre, p1) = fill (N w) (prefix w) p;
          w1 = w\<lparr>prefix := pre\<rparr>;
          overage = int (length p1) - N w1
      in if overage > 0 \<and> overage > int (length p1) then Panics
         else
           (let p2 = (if overage > 0 then drop (nat overage) p1 else p1);
                w2 = (if overage > 0 then w1\<lparr>skipped := skipped w1 + word_of_int overage\<rparr> else w1);
                (suf, p3) = fill (N w2) (suffix w2) p2;
                w3 = w2\<lparr>suffix := suf\<rparr>
            in case Write_loop w3 p3 of
                 Returns w4 \<Rightarrow> Returns (w4, lenp, None)
               | Panics \<Rightarrow> Panics
               | Diverges \<Rightarrow> Diverges))"

text \<open>\<open>strconv.FormatInt(i, 10)\<close>: the decimal digits, with a minus sign below zero.\<close>

definition digit :: "nat \<Rightarrow> char" where
  "digit d = ''0123456789'' ! d"

function format_nat :: "nat \<Rightarrow> string" where
  "format_nat n = (if n < 10 then [digit n] else format_nat (n div 10) @ [digit (n mod 10)])"
  by pat_completeness auto
termination
  by (relation "measure id") auto

declare format_nat.simps [simp del]

definition FormatInt :: "int \<Rightarrow> string" where
  "FormatInt i = (if i < 0 then CHR ''-'' # format_nat (nat (- i)) else format_nat (nat i))"

text \<open>
  \<open>Bytes\<close>: \<open>w.suffix[w.suffixOff:]\<close> and \<open>w.suffix[:w.suffixOff]\<close> panic unless
  \<open>0 \<le> suffixOff \<le> len(suffix)\<close> (the capacity beyond the length is not modelled).
\<close>

definition Bytes :: "prefixSuffixSaver \<Rightarrow> bytes outcome" where
  "Bytes w =
     (if suffix w = [] then Returns (prefix w)
      else if skipped w = 0 then Returns (prefix w @ suffix w)
      else if 0 \<le> suffixOff w \<and> suffixOff w \<le> int (length (suffix w)) then
        Returns (prefix w
                 @ ''\<newline>... omitting ''
                 @ FormatInt (sint (skipped w))
                 @ '' bytes ...\<newline>''
                 @ drop (nat (suffixOff w)) (suffix w)
                 @ take (nat (suffixOff w)) (suffix w))
      else Panics)"

text \<open>The zero value of the struct with its capacity set: \<open>&prefixSuffixSaver{N: n}\<close>.\<close>

definition new_saver :: "int \<Rightarrow> prefixSuffixSaver" where
  "new_saver n = \<lparr>N = n, prefix = [], suffix = [], suffixOff = 0, skipped = 0\<rparr>"

text \<open>A sequence of \<open>Write\<close> calls on one buffer, stopping at the first that does not return.\<close>

fun Writes :: "prefixSuffixSaver \<Rightarrow> bytes list \<Rightarrow> prefixSuffixSaver outcome" where
  "Writes w [] = Returns w"
| "Writes w (p # ps) =
     (case Write w p of
        Returns (w', n, err) \<Rightarrow> Writes w' ps
      | Panics \<Rightarrow> Panics
      | Diverges \<Rightarrow> Diverges)"

text \<open>
  The ring read as \<open>Bytes\<close> reads it: from the cursor to the end, then from the start to
  the cursor.
\<close>

definition chron :: "prefixSuffixSaver \<Rightarrow> bytes" where
  "chron w = drop (nat (suffixOff w)) (suffix w) @ take (nat (suffixOff w)) (suffix w)"

text \<open>
  The state of the ring after the bytes \<open>r\<close> have gone past the prefix, and the state of
  the whole buffer after the stream \<open>s\<close> has been written.
\<close>

definition ring_inv :: "nat \<Rightarrow> bytes \<Rightarrow> prefixSuffixSaver \<Rightarrow> bool" where
  "ring_inv m r w \<longleftrightarrow>
     length (suffix w) = min m (length r) \<and> 0 \<le> suffixOff w \<and> suffixOff w < int m \<and>
     (suffixOff w = 0 \<or> m < length r) \<and> chron w = drop (length r - m) r"

definition saver_inv :: "int \<Rightarrow> bytes \<Rightarrow> prefixSuffixSaver \<Rightarrow> bool" where
  "saver_inv n s w \<longleftrightarrow>
     N w = n \<and> prefix w = take (nat n) s \<and> ring_inv (nat n) (drop (nat n) s) w \<and>
     skipped w = word_of_int (int (length s) - int (length (prefix w)) - int (length (suffix w)))"

section \<open>The process coordinator: \<open>Cmd\<close>\<close>

subsection \<open>What the package takes from \<open>context\<close>, \<open>bytes\<close> and \<open>os/exec\<close>\<close>

text \<open>
  A \<open>context.Context\<close> as \<open>Start\<close> reads it: \<open>None\<close> while \<open>Done()\<close> is open (and
  \<open>Err()\<close> is nil), \<open>Some e\<close> once \<open>Done()\<close> is closed, with \<open>Err() = e\<close>.
\<close>

type_synonym Context = "error option"

text \<open>
  The writers that \<open>Stdout\<close> and \<open>Stderr\<close> point to live in a heap, since
  \<open>CombinedOutput\<close> attaches one buffer to both: a \<open>bytes.Buffer\<close>, a
  \<open>prefixSuffixSaver\<close>, or a writer of the caller whose contents are not followed.
\<close>

type_synonym addr = nat

datatype object = Buffer bytes | Saver prefixSuffixSaver | Opaque

record exec_Cmd =
  Stdout :: "addr option"
  Stderr :: "addr option"
  Process :: "nat option"

text \<open>
  The child process, as the operating system answers for it: whether it can be spawned,
  its pid, the chunks it writes to its two output streams, and the error of \<open>Wait\<close>.
\<close>

datatype fd = Out | Err

record os_proc =
  spawn_error :: "error option"
  pid :: nat
  writes :: "(fd \<times> bytes) list"
  exit_error :: "error option"

definition write_object :: "object \<Rightarrow> bytes \<Rightarrow> object outcome" where
  "write_object obj p =
     (case obj of
        Buffer b \<Rightarrow> Returns (Buffer (b @ p))
      | Saver sv \<Rightarrow>
          (case Write sv p of
             Returns (sv', n, err) \<Rightarrow> Returns (Saver sv')
           | Panics \<Rightarrow> Panics
           | Diverges \<Rightarrow> Diverges)
      | Opaque \<Rightarrow> Returns Opaque)"

definition write_to :: "addr option \<Rightarrow> object list \<Rightarrow> bytes \<Rightarrow> object list outcome" where
  "write_to dst h p =
     (case dst of
        None \<Rightarrow> Returns h
      | Some a \<Rightarrow>
          if a < length h then
            (case write_object (h ! a) p of
               Returns obj \<Rightarrow> Returns (h[a := obj])
             | Panics \<Rightarrow> Panics
             | Diverges \<Rightarrow> Diverges)
          else Returns h)"

fun deliver :: "exec_Cmd \<Rightarrow> object list \<Rightarrow> (fd \<times> bytes) list \<Rightarrow> object list outcome" where
  "deliver c h [] = Returns h"
| "deliver c h ((f, p) # rest) =
     (case write_to (case f of Out \<Rightarrow> Stdout c | Err \<Rightarrow> Stderr c) h p of
        Returns h' \<Rightarrow> deliver c h' rest
      | Panics \<Rightarrow> Panics
      | Diverges \<Rightarrow> Diverges)"

text \<open>
  \<open>(*exec.Cmd).Start\<close> and \<open>(*exec.Cmd).Wait\<close> of the standard library: \<open>Start\<close> sets
  \<open>Process\<close> when the spawn succeeds; \<open>Wait\<close> returns once the process has exited and
  its output has been copied to the attached writers.
\<close>

definition cmd_Start :: "os_proc \<Rightarrow> exec_Cmd \<Rightarrow> error option \<times> exec_Cmd" where
  "cmd_Start os c =
     (if Process c \<noteq> None then (Some (errorString ''exec: already started''), c)
      else case spawn_error os of
             Some e \<Rightarrow> (Some e, c)
           | None \<Rightarrow> (None, c\<lparr>Process := Some (pid os)\<rparr>))"

definition cmd_Wait :: "os_proc \<Rightarrow> exec_Cmd \<Rightarrow> object list \<Rightarrow> (error option \<times> object list) outcome" where
  "cmd_Wait os c h =
     (if Process c = None then Returns (Some (errorString ''exec: not started''), h)
      else case deliver c h (writes os) of
             Returns h' \<Rightarrow> Returns (exit_error os, h')
           | Panics \<Rightarrow> Panics
           | Diverges \<Rightarrow> Diverges)"

text \<open>\<open>b.Bytes()\<close> of the \<open>bytes.Buffer\<close> at an address.\<close>

definition Buffer_Bytes :: "object list \<Rightarrow> addr \<Rightarrow> bytes" where
  "Buffer_Bytes h a = (if a < length h then (case h ! a of Buffer b \<Rightarrow> b | _ \<Rightarrow> []) else [])"

subsection \<open>The struct and the state of the program\<close>

text \<open>
  \<open>cancel\<close> is \<open>None\<close> for a nil function; \<open>waitDone\<close> is \<open>True\<close> once the channel is
  closed; \<open>ctx\<close> is \<open>None\<close> for a nil interface. The wrapped \<open>*exec.Cmd\<close> is not nil.
\<close>

record 'f Cmd =
  ctx :: "Context option"
  cancel :: "'f option"
  cmd :: exec_Cmd
  waitDone :: bool

text \<open>What a watcher goroutine does to the process: the default kill, or the call of \<open>cancel\<close>.\<close>

datatype 'f action = Kill nat | Call 'f

text \<open>
  The program state: the coordinator \<open>c\<close>, the heap of writers, the number of watcher
  goroutines that are blocked in the \<open>select\<close> of \<open>Start\<close>, and what watchers have done.
\<close>

record 'f world =
  self :: "'f Cmd"
  heap :: "object list"
  watchers :: nat
  effects :: "'f action list"

definition FromCmd :: "Context option \<Rightarrow> exec_Cmd \<Rightarrow> 'f option \<Rightarrow> 'f Cmd" where
  "FromCmd cx c f = \<lparr>ctx = cx, cancel = f, cmd = c, waitDone = False\<rparr>"

text \<open>\<open>Wait\<close>: \<open>close(c.waitDone)\<close> panics when the channel is closed already.\<close>

definition Wait :: "os_proc \<Rightarrow> 'f world \<Rightarrow> (error option \<times> 'f world) outcome" where
  "Wait os w =
     (case cmd_Wait os (cmd (self w)) (heap w) of
        Returns (err, h') \<Rightarrow>
          if waitDone (self w) then Panics
          else Returns (err, w\<lparr>self := (self w)\<lparr>waitDone := True\<rparr>, heap := h'\<rparr>)
      | Panics \<Rightarrow> Panics
      | Diverges \<Rightarrow> Diverges)"

text \<open>
  \<open>Start\<close>: the non-blocking \<open>select\<close> on \<open>c.ctx.Done()\<close>, then \<open>c.cmd.Start()\<close>, then
  the \<open>go\<close> statement, which adds one watcher.
\<close>

definition Start :: "os_proc \<Rightarrow> 'f world \<Rightarrow> (error option \<times> 'f world) outcome" where
  "Start os w =
     (case ctx (self w) of
        None \<Rightarrow> Panics
      | Some (Some e) \<Rightarrow> Returns (Some e, w)
      | Some None \<Rightarrow>
          (case cmd_Start os (cmd (self w)) of
             (Some err, c') \<Rightarrow> Returns (Some err, w\<lparr>self := (self w)\<lparr>cmd := c'\<rparr>\<rparr>)
           | (None, c') \<Rightarrow>
               Returns (None, w\<lparr>self := (self w)\<lparr>cmd := c'\<rparr>, watchers := watchers w + 1\<rparr>)))"

text \<open>\<open>Run\<close>, with its \<open>return nil\<close> in the branch \<open>err != nil\<close>.\<close>

definition Run :: "os_proc \<Rightarrow> 'f world \<Rightarrow> (error option \<times> 'f world) outcome" where
  "Run os w =
     (case Start os w of
        Returns (err, w') \<Rightarrow> if err \<noteq> None then Returns (None, w') else Wait os w'
      | Panics \<Rightarrow> Panics
      | Diverges \<Rightarrow> Diverges)"

definition CombinedOutput :: "os_proc \<Rightarrow> 'f world \<Rightarrow> ((bytes \<times> error option) \<times> 'f world) outcome" where
  "CombinedOutput os w =
     (if Stdout (cmd (self w)) \<noteq> None then
        Returns (([], Some (errorString ''exec: Stdout already set'')), w)
      else if Stderr (cmd (self w)) \<noteq> None then
        Returns (([], Some (errorString ''exec: Stderr already set'')), w)
      else
        (let b = length (heap w);
             w1 = w\<lparr>heap := heap w @ [Buffer []],
                    self := (self w)\<lparr>cmd := (cmd (self w))\<lparr>Stdout := Some b, Stderr := Some b\<rparr>\<rparr>\<rparr>
         in case Run os w1 of
              Returns (err, w2) \<Rightarrow> Returns ((Buffer_Bytes (heap w2) b, err), w2)
            | Panics \<Rightarrow> Panics
            | Diverges \<Rightarrow> Diverges))"

text \<open>
  \<open>Output\<close>: its first argument is the parameter \<open>ctx\<close> of the source. The type assertion
  \<open>c.cmd.Stderr.(*prefixSuffixSaver)\<close> panics when \<open>Stderr\<close> is no such writer.
\<close>

definition Output :: "Context option \<Rightarrow> os_proc \<Rightarrow> 'f world \<Rightarrow> ((bytes \<times> error option) \<times> 'f world) outcome" where
  "Output cx os w =
     (if Stdout (cmd (self w)) \<noteq> None then
        Returns (([], Some (errorString ''exec: Stdout already set'')), w)
      else
        (let stdout = length (heap w);
             w1 = w\<lparr>heap := heap w @ [Buffer []],
                    self := (self w)\<lparr>cmd := (cmd (self w))\<lparr>Stdout := Some stdout\<rparr>\<rparr>\<rparr>;
             captureErr = (Stderr (cmd (self w1)) = None);
             w2 = (if captureErr then
                     w1\<lparr>heap := heap w1 @ [Saver (new_saver (push_bit 10 32))],
                        self := (self w1)\<lparr>cmd := (cmd (self w1))\<lparr>Stderr := Some (length (heap w1))\<rparr>\<rparr>\<rparr>
                   else w1)
         in case Run os w2 of
              Returns (err, w3) \<Rightarrow>
                (case err of
                   Some (ExitError code old) \<Rightarrow>
                     if captureErr then
                       (case Stderr (cmd (self w3)) of
                          None \<Rightarrow> Panics
                        | Some a \<Rightarrow>
                            if a < length (heap w3) then
                              (case heap w3 ! a of
                                 Saver sv \<Rightarrow>
                                   (case Bytes sv of
                                      Returns bs \<Rightarrow>
                                        Returns ((Buffer_Bytes (heap w3) stdout, Some (ExitError code bs)), w3)
                                    | Panics \<Rightarrow> Panics
                                    | Diverges \<Rightarrow> Diverges)
                               | _ \<Rightarrow> Panics)
                            else Panics)
                     else Returns ((Buffer_Bytes (heap w3) stdout, err), w3)
                 | _ \<Rightarrow> Returns ((Buffer_Bytes (heap w3) stdout, err), w3))
            | Panics \<Rightarrow> Panics
            | Diverges \<Rightarrow> Diverges))"

subsection \<open>The watcher goroutine and its executions\<close>

text \<open>
  The \<open>select\<close> of the watcher has two cases. A case can be chosen when its channel is
  closed; when both are closed Go chooses either. \<open>c.cmd.Process.Kill()\<close> panics on a nil
  \<open>Process\<close>.
\<close>

datatype select_case = ctx_Done | waitDone_closed

definition ready :: "select_case \<Rightarrow> 'f world \<Rightarrow> bool" where
  "ready sc w =
     (case sc of
        ctx_Done \<Rightarrow> (case ctx (self w) of Some (Some e) \<Rightarrow> True | _ \<Rightarrow> False)
      | waitDone_closed \<Rightarrow> waitDone (self w))"

definition watcher :: "select_case \<Rightarrow> 'f world \<Rightarrow> 'f world outcome" where
  "watcher sc w =
     (case sc of
        ctx_Done \<Rightarrow>
          (case cancel (self w) of
             None \<Rightarrow>
               (case Process (cmd (self w)) of
                  None \<Rightarrow> Panics
                | Some p \<Rightarrow> Returns (w\<lparr>effects := effects w @ [Kill p]\<rparr>))
           | Some f \<Rightarrow> Returns (w\<lparr>effects := effects w @ [Call f]\<rparr>))
      | waitDone_closed \<Rightarrow> Returns w)"

text \<open>
  An execution after \<open>Start\<close> is a sequence of events: the caller cancels the context, the
  owner calls \<open>Wait\<close>, or the \<open>select\<close> of a blocked watcher takes a case that is ready
  and the watcher runs to its end. \<open>exec\<close> is \<open>None\<close> when the event cannot happen in the
  state (or panics).
\<close>

datatype event = Cancel error | CallWait | Select select_case

fun is_Select :: "event \<Rightarrow> bool" where
  "is_Select (Select sc) = True"
| "is_Select ev = False"

fun is_Cancel :: "event \<Rightarrow> bool" where
  "is_Cancel (Cancel e) = True"
| "is_Cancel ev = False"

fun exec :: "os_proc \<Rightarrow> 'f world \<Rightarrow> event \<Rightarrow> 'f world option" where
  "exec os w (Cancel e) =
     (case ctx (self w) of
        Some None \<Rightarrow> Some (w\<lparr>self := (self w)\<lparr>ctx := Some (Some e)\<rparr>\<rparr>)
      | _ \<Rightarrow> None)"
| "exec os w CallWait =
     (case Wait os w of Returns (err, w') \<Rightarrow> Some w' | _ \<Rightarrow> None)"
| "exec os w (Select sc) =
     (if 0 < watchers w \<and> ready sc w then
        (case watcher sc w of
           Returns w' \<Rightarrow> Some (w'\<lparr>watchers := watchers w' - 1\<rparr>)
         | _ \<Rightarrow> None)
      else None)"

fun run :: "os_proc \<Rightarrow> 'f world \<Rightarrow> event list \<Rightarrow> 'f world option" where
  "run os w [] = Some w"
| "run os w (ev # evs) = (case exec os w ev of None \<Rightarrow> None | Some w' \<Rightarrow> run os w' evs)"

subsection \<open>Concrete programs\<close>

text \<open>A process that starts, writes nothing and exits with status 0; one that cannot be spawned.\<close>

definition quiet_proc :: os_proc where
  "quiet_proc = \<lparr>spawn_error = None, pid = 1, writes = [], exit_error = None\<rparr>"

definition missing_proc :: os_proc where
  "missing_proc = \<lparr>spawn_error = Some (SyscallError ''executable file not found''), pid = 0,
     writes = [], exit_error = None\<rparr>"

definition fresh_cmd :: exec_Cmd where
  "fresh_cmd = \<lparr>Stdout = None, Stderr = None, Process = None\<rparr>"

text \<open>A coordinator with a live context and no \<open>cancel\<close> function, before and after \<open>Start\<close>.\<close>

definition live_world :: "unit world" where
  "live_world = \<lparr>self = FromCmd (Some None) fresh_cmd None, heap = [], watchers = 0, effects = []\<rparr>"

definition started_world :: "unit world" where
  "started_world =
     \<lparr>self = \<lparr>ctx = Some None, cancel = None, cmd = fresh_cmd\<lparr>Process := Some 1\<rparr>, waitDone = False\<rparr>,
      heap = [], watchers = 1, effects = []\<rparr>"

text \<open>A coordinator whose context was cancelled before \<open>Start\<close>.\<close>

definition cancelled_world :: "unit world" where
  "cancelled_world =
     \<lparr>self = FromCmd (Some (Some Canceled)) fresh_cmd None, heap = [], watchers = 0, effects = []\<rparr>"

text \<open>A coordinator whose command has its \<open>Stderr\<close> attached to a writer of the caller.\<close>

definition bound_world :: "unit world" where
  "bound_world =
     \<lparr>self = FromCmd (Some None) (fresh_cmd\<lparr>Stderr := Some 0\<rparr>) None, heap = [Opaque],
      watchers = 0, effects = []\<rparr>"

section \<open>Properties of the bounded capture buffer\<close>

lemma fill_eq: "fill n dst p = (dst @ take (nat (n - int (length dst))) p, drop (nat (n - int (length dst))) p)"
  by (auto simp: fill_def minInt_def Let_def)

lemma ring_step:
  assumes "off < m" "length s = m" "0 < n" "n \<le> m - off" "length q = n"
  shows "drop (if off + n = m then 0 else off + n) (take off s @ q @ drop (off + n) s)
         @ take (if off + n = m then 0 else off + n) (take off s @ q @ drop (off + n) s)
         = drop n (drop off s @ take off s @ q)"
  using assms by (auto simp: drop_take min_def add.commute)

lemma Write_loop_ring:
  assumes "0 < N w" "int (length (suffix w)) = N w" "0 \<le> suffixOff w" "suffixOff w < N w"
  shows "\<exists>w'. Write_loop w p = Returns w' \<and> N w' = N w \<and> prefix w' = prefix w
           \<and> length (suffix w') = length (suffix w) \<and> 0 \<le> suffixOff w' \<and> suffixOff w' < N w
           \<and> skipped w' = skipped w + word_of_int (int (length p))
           \<and> chron w' = drop (length p) (chron w @ p)"
  using assms
proof (induction "length p" arbitrary: w p rule: less_induct)
  case less
  show ?case
  proof (cases "p = []")
    case True
    with less.prems show ?thesis by (simp add: Write_loop.simps)
  next
    case False
    define off where "off = nat (suffixOff w)"
    define n where "n = min (length (suffix w) - off) (length p)"
    define w' where "w' = w\<lparr>suffix := take off (suffix w) @ take n p @ drop (off + n) (suffix w),
                       skipped := skipped w + word_of_int (int n),
                       suffixOff := (if suffixOff w + int n = N w then 0 else suffixOff w + int n)\<rparr>"
    have offm: "off < length (suffix w)" using less.prems by (simp add: off_def)
    have n0: "0 < n" "n \<le> length p" "n \<le> length (suffix w) - off"
      using False offm by (auto simp: n_def)
    have unf: "Write_loop w p = Write_loop w' (drop n p)"
      using False less.prems n0
      by (subst Write_loop.simps) (auto simp: Let_def off_def [symmetric] n_def [symmetric] w'_def)
    have so: "suffixOff w' = int (if off + n = length (suffix w) then 0 else off + n)"
      using less.prems by (auto simp: w'_def off_def)
    have len': "length (suffix w') = length (suffix w)"
      using n0 offm by (simp add: w'_def)
    have pre: "0 < N w'" "int (length (suffix w')) = N w'" "0 \<le> suffixOff w'" "suffixOff w' < N w'"
      using less.prems n0 offm len' so by (auto simp: w'_def)
    have "length (drop n p) < length p" using n0 False by simp
    from less.hyps [OF this pre] obtain w'' where
      w'': "Write_loop w' (drop n p) = Returns w''" "N w'' = N w'" "prefix w'' = prefix w'"
        "length (suffix w'') = length (suffix w')" "0 \<le> suffixOff w''" "suffixOff w'' < N w'"
        "skipped w'' = skipped w' + word_of_int (int (length (drop n p)))"
        "chron w'' = drop (length (drop n p)) (chron w' @ drop n p)"
      by blast
    have c': "chron w' = drop n (chron w @ take n p)"
      unfolding chron_def so
      using ring_step [of off "length (suffix w)" "suffix w" n "take n p"] n0 offm
      by (simp add: w'_def off_def [symmetric])
    have lc: "n \<le> length (chron w)"
      using n0 by (simp add: chron_def)
    have "drop n (chron w @ take n p) @ drop n p = drop n (chron w) @ take n p @ drop n p"
      using lc by simp
    also have "\<dots> = drop n (chron w @ p)"
      using lc by simp
    finally have "drop (length p - n) (drop n (chron w @ take n p) @ drop n p)
        = drop (length p - n + n) (chron w @ p)"
      by (simp only: drop_drop)
    then have "chron w'' = drop (length p) (chron w @ p)"
      using w''(8) c' n0 by simp
    moreover have "skipped w'' = skipped w + word_of_int (int (length p))"
      using w''(7) n0 by (simp add: w'_def)
    ultimately show ?thesis
      using unf w'' len' by (simp add: w'_def)
  qed
qed

lemma ring_inv_unwrapped:
  assumes "ring_inv m r w" "length (suffix w) < m"
  shows "suffix w = r" "suffixOff w = 0"
proof -
  from assms have l: "length r < m"
    by (simp add: ring_inv_def min_def split: if_splits)
  with assms show o: "suffixOff w = 0" by (simp add: ring_inv_def)
  from assms have "chron w = drop (length r - m) r" by (simp add: ring_inv_def)
  with l o show "suffix w = r" by (simp add: chron_def)
qed

lemma ring_append:
  assumes n: "0 < N w" and inv: "ring_inv (nat (N w)) r w"
  shows "\<exists>w'. Write_loop (w\<lparr>suffix := suffix w @ take (nat (N w - int (length (suffix w)))) q\<rparr>)
                      (drop (nat (N w - int (length (suffix w)))) q) = Returns w'
           \<and> N w' = N w \<and> prefix w' = prefix w \<and> ring_inv (nat (N w)) (r @ q) w'
           \<and> skipped w' = skipped w + word_of_int (int (length q) - (int (length (suffix w')) - int (length (suffix w))))"
proof -
  define m where "m = nat (N w)"
  define k where "k = nat (N w - int (length (suffix w)))"
  define w3 where "w3 = w\<lparr>suffix := suffix w @ take k q\<rparr>"
  have m: "0 < m" "N w = int m" using n by (simp_all add: m_def)
  have lm: "length (suffix w) \<le> m" using inv by (simp add: ring_inv_def m_def)
  have k: "k = m - length (suffix w)" using lm by (simp add: k_def m)
  show ?thesis
  proof (cases "drop k q = []")
    case True
    then have qk: "length q \<le> k" by simp
    show ?thesis
    proof (cases "length (suffix w) < m")
      case full: False
      with lm k qk have "q = []" by simp
      with inv show ?thesis
        by (simp add: Write_loop.simps m_def)
    next
      case True
      from ring_inv_unwrapped [OF inv [folded m_def] True]
      have "ring_inv m (r @ q) w3"
        using qk k True by (simp add: ring_inv_def w3_def chron_def)
      then show ?thesis
        using qk \<open>drop k q = []\<close>
        by (simp add: Write_loop.simps k_def [symmetric] w3_def [symmetric] m_def [symmetric])
           (simp add: w3_def)
    qed
  next
    case False
    then have qk: "k < length q" by simp
    have l3: "length (suffix w3) = m" using qk lm k by (simp add: w3_def)
    have o3: "0 \<le> suffixOff w3" "suffixOff w3 < N w3"
      using inv n by (simp_all add: ring_inv_def w3_def m_def)
    have p3: "0 < N w3" "int (length (suffix w3)) = N w3"
      using l3 m by (simp_all add: w3_def)
    from Write_loop_ring [OF p3 o3, of "drop k q"] obtain w' where
      w': "Write_loop w3 (drop k q) = Returns w'" "N w' = N w3" "prefix w' = prefix w3"
        "length (suffix w') = length (suffix w3)" "0 \<le> suffixOff w'" "suffixOff w' < N w3"
        "skipped w' = skipped w3 + word_of_int (int (length (drop k q)))"
        "chron w' = drop (length (drop k q)) (chron w3 @ drop k q)"
      by blast
    have c3: "chron w3 @ drop k q = drop (length r - m) r @ q"
    proof (cases "length (suffix w) < m")
      case True
      from ring_inv_unwrapped [OF inv [folded m_def] True] True
      show ?thesis by (simp add: chron_def w3_def)
    next
      case False
      with lm k have "k = 0" by simp
      with inv show ?thesis by (simp add: w3_def ring_inv_def chron_def m_def)
    qed
    have lr: "length (suffix w) = min m (length r)" using inv by (simp add: ring_inv_def m_def)
    have "drop (length (drop k q)) (drop (length r - m) r @ q) = drop (length (r @ q) - m) (r @ q)"
      using qk k lm lr by (auto simp: min_def add.commute split: if_splits)
    with w'(8) c3 have "chron w' = drop (length (r @ q) - m) (r @ q)" by simp
    moreover have "m < length (r @ q)" using qk k lr by (simp only: length_append)
    ultimately have "ring_inv m (r @ q) w'"
      using w' l3 m by (simp add: ring_inv_def w3_def)
    moreover have "skipped w' = skipped w + word_of_int (int (length q) - (int (length (suffix w')) - int (length (suffix w))))"
      using w'(7) w'(4) l3 qk k lm by (simp add: w3_def)
    ultimately show ?thesis
      using w' by (simp add: k_def [symmetric] w3_def [symmetric] m_def [symmetric]) (simp add: w3_def)
  qed
qed


lemma ring_inv_update [simp]:
  "ring_inv m r (w\<lparr>prefix := x\<rparr>) = ring_inv m r w"
  "ring_inv m r (w\<lparr>skipped := y\<rparr>) = ring_inv m r w"
  by (simp_all add: ring_inv_def chron_def)

lemma word_of_int_sum:
  fixes x y :: "64 word"
  assumes "x = word_of_int a" "y = x + word_of_int b" "a + b = c"
  shows "y = word_of_int c"
proof -
  have "word_of_int a + word_of_int b = (word_of_int (a + b) :: 64 word)" by simp
  with assms show ?thesis by simp
qed

lemma Write_inv:
  assumes n: "0 < n" and inv: "saver_inv n s w"
  shows "\<exists>w'. Write w p = Returns (w', int (length p), None) \<and> saver_inv n (s @ p) w'"
proof -
  define m where "m = nat n"
  define r where "r = drop m s"
  define k1 where "k1 = nat (N w - int (length (prefix w)))"
  define p1 where "p1 = drop k1 p"
  define w1 where "w1 = w\<lparr>prefix := prefix w @ take k1 p\<rparr>"
  have Nw: "N w = n" "N w = int m" "0 < m" using inv n by (simp_all add: saver_inv_def m_def)
  have pw: "prefix w = take m s" using inv by (simp add: saver_inv_def m_def)
  have k1: "k1 = m - length s" unfolding k1_def pw Nw(2) by (simp add: min_def; arith)
  have pre: "prefix w1 = take m (s @ p)" using pw k1 by (simp add: w1_def)
  have rest: "drop m (s @ p) = r @ p1" using k1 by (simp add: r_def p1_def)
  have rw1: "ring_inv m r w1" using inv by (simp add: saver_inv_def w1_def m_def r_def)
  have sk: "skipped w = word_of_int (int (length s) - int (length (prefix w)) - int (length (suffix w)))"
    using inv by (simp add: saver_inv_def)
  have lens: "int (length (s @ p)) - int (length (prefix w1)) = int (length s) - int (length (prefix w)) + int (length p1)"
    using pw k1 by (simp add: w1_def p1_def min_def)
  show ?thesis
  proof (cases "int (length p1) - N w > 0")
    case False
    have Nw1: "0 < N w1" "nat (N w1) = m" using Nw by (simp_all add: w1_def)
    from ring_append [of w1 r p1] Nw1 rw1 obtain w' where
      w': "Write_loop (w1\<lparr>suffix := suffix w1 @ take (nat (N w1 - int (length (suffix w1)))) p1\<rparr>)
                      (drop (nat (N w1 - int (length (suffix w1)))) p1) = Returns w'"
        "N w' = N w1" "prefix w' = prefix w1" "ring_inv m (r @ p1) w'"
        "skipped w' = skipped w1 + word_of_int (int (length p1) - (int (length (suffix w')) - int (length (suffix w1))))"
      by auto
    have "Write w p = Returns (w', int (length p), None)"
      using False w'(1)
      by (simp add: Write_def fill_eq Let_def k1_def [symmetric] p1_def [symmetric] w1_def [symmetric])
    moreover have "saver_inv n (s @ p) w'"
    proof -
      have e: "(int (length s) - int (length (prefix w)) - int (length (suffix w)))
                 + (int (length p1) - (int (length (suffix w')) - int (length (suffix w1))))
               = int (length (s @ p)) - int (length (prefix w')) - int (length (suffix w'))"
        using lens w'(3) by (simp add: w1_def)
      have s1: "skipped w1 = word_of_int (int (length s) - int (length (prefix w)) - int (length (suffix w)))"
        using sk by (simp add: w1_def)
      have "skipped w' = word_of_int (int (length (s @ p)) - int (length (prefix w')) - int (length (suffix w')))"
        by (rule word_of_int_sum [OF s1 w'(5) e])
      with w'(2,3,4) pre rest Nw show ?thesis
        unfolding saver_inv_def m_def [symmetric] by (simp add: w1_def)
    qed
    ultimately show ?thesis by blast
  next
    case True
    define p2 where "p2 = drop (nat (int (length p1) - N w)) p1"
    define w2 where "w2 = w1\<lparr>skipped := skipped w1 + word_of_int (int (length p1) - N w)\<rparr>"
    have lp: "m < length p1" using True Nw by simp
    have lp2: "length p2 = m" "p2 = drop (length p1 - m) p1"
      using lp Nw m_def [symmetric] by (simp_all add: p2_def nat_diff_distrib')
    have Nw2: "0 < N w2" "nat (N w2) = m" using Nw by (simp_all add: w2_def w1_def)
    have rw2: "ring_inv m r w2" using rw1 by (simp add: w2_def)
    from ring_append [of w2 r p2] Nw2 rw2 obtain w' where
      w': "Write_loop (w2\<lparr>suffix := suffix w2 @ take (nat (N w2 - int (length (suffix w2)))) p2\<rparr>)
                      (drop (nat (N w2 - int (length (suffix w2)))) p2) = Returns w'"
        "N w' = N w2" "prefix w' = prefix w2" "ring_inv m (r @ p2) w'"
        "skipped w' = skipped w2 + word_of_int (int (length p2) - (int (length (suffix w')) - int (length (suffix w2))))"
      by auto
    have np: "\<not> int (length p1) - N w > int (length p1)" using Nw by simp
    have "Write w p = Returns (w', int (length p), None)"
      using True np w'(1)
      by (simp add: Write_def fill_eq Let_def k1_def [symmetric] p1_def [symmetric] w1_def
            p2_def w2_def)
    moreover have ls: "length (suffix w') = m"
      using w'(4) lp2 by (simp add: ring_inv_def)
    have "drop (length (r @ p1) - m) (r @ p1) = p2"
      using lp lp2 by simp
    moreover have "drop (length (r @ p2) - m) (r @ p2) = p2"
      using lp2 by simp
    ultimately have r': "ring_inv m (r @ p1) w'"
      using w'(4) lp lp2 by (simp add: ring_inv_def)
    have "saver_inv n (s @ p) w'"
    proof -
      have e: "(int (length s) - int (length (prefix w)) - int (length (suffix w)) + (int (length p1) - N w))
                 + (int (length p2) - (int (length (suffix w')) - int (length (suffix w2))))
               = int (length (s @ p)) - int (length (prefix w')) - int (length (suffix w'))"
        using lens w'(3) lp2 lp ls Nw by (simp add: w2_def w1_def)
      have s2: "skipped w2 = word_of_int (int (length s) - int (length (prefix w)) - int (length (suffix w))
                                           + (int (length p1) - N w))"
        using sk by (simp add: w2_def w1_def)
      have "skipped w' = word_of_int (int (length (s @ p)) - int (length (prefix w')) - int (length (suffix w')))"
        by (rule word_of_int_sum [OF s2 w'(5) e])
      with w'(2,3) r' pre rest Nw show ?thesis
        unfolding saver_inv_def m_def [symmetric] by (simp add: w2_def w1_def)
    qed
    with \<open>Write w p = Returns (w', int (length p), None)\<close> show ?thesis by blast
  qed
qed

lemma new_saver_inv: "0 < n \<Longrightarrow> saver_inv n [] (new_saver n)"
  by (simp add: saver_inv_def ring_inv_def chron_def new_saver_def)

lemma Writes_inv:
  assumes "0 < n" "saver_inv n s w"
  shows "\<exists>w'. Writes w ps = Returns w' \<and> saver_inv n (s @ concat ps) w'"
  using assms
proof (induction ps arbitrary: s w)
  case Nil
  then show ?case by simp
next
  case (Cons p ps)
  from Write_inv [OF Cons.prems, of p] obtain w1 where
    w1: "Write w p = Returns (w1, int (length p), None)" "saver_inv n (s @ p) w1" by blast
  from Cons.IH [OF Cons.prems(1) w1(2)] w1(1) show ?case by simp
qed



lemma saver_inv_lengths:
  assumes "0 < n" "saver_inv n s w"
  shows "length (prefix w) = min (nat n) (length s)"
    and "length (suffix w) = min (nat n) (length s - nat n)"
    and "chron w = drop (length s - length (suffix w)) s"
proof -
  from assms show "length (prefix w) = min (nat n) (length s)"
    by (simp add: saver_inv_def)
  from assms show l: "length (suffix w) = min (nat n) (length s - nat n)"
    by (simp add: saver_inv_def ring_inv_def)
  from assms have "chron w = drop (length s - nat n - nat n) (drop (nat n) s)"
    by (simp add: saver_inv_def ring_inv_def)
  also have "\<dots> = drop (length s - length (suffix w)) s"
  proof (cases "nat n \<le> length s")
    case True
    then have "length s - nat n - nat n + nat n = length s - min (nat n) (length s - nat n)"
      by (simp add: min_def)
    then show ?thesis unfolding l drop_drop by simp
  next
    case False
    then show ?thesis unfolding l by simp
  qed
  finally show "chron w = drop (length s - length (suffix w)) s" .
qed

lemma Write_small:
  assumes "suffix w = []" "int (length (prefix w)) + int (length p) \<le> N w"
  shows "Write w p = Returns (w\<lparr>prefix := prefix w @ p\<rparr>, int (length p), None)"
proof -
  have k: "length p \<le> nat (N w - int (length (prefix w)))" using assms by simp
  have "w\<lparr>prefix := prefix w @ p, suffix := []\<rparr> = w\<lparr>prefix := prefix w @ p\<rparr>"
    using assms by simp
  with assms k show ?thesis
    by (simp add: Write_def fill_eq Let_def Write_loop.simps)
qed

lemma Writes_small:
  assumes "suffix w = []" "int (length (prefix w)) + int (length (concat ps)) \<le> N w"
  shows "Writes w ps = Returns (w\<lparr>prefix := prefix w @ concat ps\<rparr>)"
  using assms
proof (induction ps arbitrary: w)
  case Nil
  then show ?case by simp
next
  case (Cons p ps)
  from Cons.prems have "int (length (prefix w)) + int (length p) \<le> N w" by simp
  from Write_small [OF Cons.prems(1) this]
  have w: "Write w p = Returns (w\<lparr>prefix := prefix w @ p\<rparr>, int (length p), None)" .
  have "Writes (w\<lparr>prefix := prefix w @ p\<rparr>) ps
          = Returns (w\<lparr>prefix := prefix w @ p\<rparr>\<lparr>prefix := prefix (w\<lparr>prefix := prefix w @ p\<rparr>) @ concat ps\<rparr>)"
    using Cons.prems by (intro Cons.IH) simp_all
  with w show ?case by simp
qed

lemma saver_inv_count:
  assumes "0 < n" "saver_inv n s w"
  shows "skipped w = word_of_int (int (length s) - (int (length (prefix w)) + int (length (suffix w))))"
    and "0 \<le> int (length s) - (int (length (prefix w)) + int (length (suffix w)))"
    and "2 * nat n < length s
           \<longleftrightarrow> 0 < int (length s) - (int (length (prefix w)) + int (length (suffix w)))"
proof -
  note l = saver_inv_lengths [OF assms]
  have "int (length s) - int (length (prefix w)) - int (length (suffix w))
          = int (length s) - (int (length (prefix w)) + int (length (suffix w)))"
    by simp
  with assms(2) show "skipped w = word_of_int (int (length s) - (int (length (prefix w)) + int (length (suffix w))))"
    by (simp only: saver_inv_def)
  have le: "length (prefix w) + length (suffix w) \<le> length s"
    unfolding l(1,2) by simp
  then show "0 \<le> int (length s) - (int (length (prefix w)) + int (length (suffix w)))"
    by linarith
  have "2 * nat n < length s \<longleftrightarrow> length (prefix w) + length (suffix w) < length s"
    unfolding l(1,2) using assms(1) by (simp add: min_def) linarith
  then show "2 * nat n < length s
          \<longleftrightarrow> 0 < int (length s) - (int (length (prefix w)) + int (length (suffix w)))"
    by linarith
qed

text \<open>
  C4, as the code has it. Start from an empty buffer of capacity \<open>n > 0\<close> and make any
  sequence \<open>ps\<close> of \<open>Write\<close> calls (every state between two calls is the state after
  such a sequence). Every call returns, and afterwards: prefix and suffix hold at most \<open>n\<close>
  bytes each; the prefix is the head of the written stream; the ring, read from its cursor,
  is the tail of the stream; head and tail do not overlap; and the 64-bit counter \<open>skipped\<close>
  is the number of bytes written minus the number of bytes retained, modulo \<open>2 ^ 64\<close>. Read
  as a signed number it is that difference itself while the difference is below \<open>2 ^ 63\<close>.
\<close>

theorem Write_retains_head_and_tail:
  assumes "0 < n"
  shows "\<exists>w. Writes (new_saver n) ps = Returns w
           \<and> int (length (prefix w)) \<le> n \<and> int (length (suffix w)) \<le> n
           \<and> prefix w = take (length (prefix w)) (concat ps)
           \<and> chron w = drop (length (concat ps) - length (suffix w)) (concat ps)
           \<and> length (prefix w) + length (suffix w) \<le> length (concat ps)
           \<and> skipped w = word_of_int (int (length (concat ps))
                                         - (int (length (prefix w)) + int (length (suffix w))))
           \<and> (int (length (concat ps)) - (int (length (prefix w)) + int (length (suffix w))) < 2 ^ 63
                \<longrightarrow> sint (skipped w)
                      = int (length (concat ps)) - (int (length (prefix w)) + int (length (suffix w))))"
proof -
  from Writes_inv [OF assms new_saver_inv [OF assms], of ps] obtain w where
    w: "Writes (new_saver n) ps = Returns w" "saver_inv n (concat ps) w"
    by auto
  note l = saver_inv_lengths [OF assms w(2)]
  note c = saver_inv_count [OF assms w(2)]
  have "length (prefix w) \<le> nat n" "length (suffix w) \<le> nat n"
    unfolding l(1,2) by simp_all
  then have "int (length (prefix w)) \<le> n" "int (length (suffix w)) \<le> n"
    using assms by linarith+
  moreover have "prefix w = take (length (prefix w)) (concat ps)"
  proof -
    have p: "prefix w = take (nat n) (concat ps)"
      using w(2) by (simp add: saver_inv_def)
    have "take (length (prefix w)) (concat ps) = take (nat n) (concat ps)"
      unfolding l(1) by (simp add: min_def)
    with p show ?thesis by simp
  qed
  moreover have "length (prefix w) + length (suffix w) \<le> length (concat ps)"
    unfolding l(1,2) by simp
  moreover have "sint (skipped w)
      = int (length (concat ps)) - (int (length (prefix w)) + int (length (suffix w)))"
    if "int (length (concat ps)) - (int (length (prefix w)) + int (length (suffix w))) < 2 ^ 63"
    unfolding c(1) using c(2) that by (simp only: sint_sbintrunc') (simp add: signed_take_bit_int_eq_self)
  ultimately show ?thesis using w(1) l(3) c(1) by blast
qed

theorem Write_retains_head_and_tail_witness:
  "(0::int) < 4 \<and>
   (\<exists>w. Writes (new_saver 4) [''ABC'', ''DEFGHIJ'', ''KL''] = Returns w
      \<and> prefix w = ''ABCD'' \<and> chron w = ''IJKL'' \<and> skipped w = 4 \<and> sint (skipped w) = 4
      \<and> int (length (prefix w)) \<le> 4 \<and> int (length (suffix w)) \<le> 4)"
proof -
  have h: "(0::int) < 4" by simp
  have e: "Writes (new_saver 4) [''ABC'', ''DEFGHIJ'', ''KL'']
             = Returns \<lparr>N = 4, prefix = ''ABCD'', suffix = ''KLIJ'', suffixOff = 2, skipped = 4\<rparr>"
    by (simp add: new_saver_def Write_def fill_def minInt_def Let_def Write_loop.simps)
  from Write_retains_head_and_tail [OF h, of "[''ABC'', ''DEFGHIJ'', ''KL'']"] e
  show ?thesis by (simp add: chron_def)
qed

text \<open>
  C4, as the claim states it, fails once \<open>2 ^ 63\<close> bytes have been dropped. With capacity 1,
  two writes of \<open>2 ^ 62\<close> bytes and one of two bytes leave one byte in the prefix and one in
  the suffix; \<open>2 ^ 63\<close> bytes were written and not retained, and the counter holds
  \<open>- 2 ^ 63\<close>.
\<close>

theorem skipped_wraps_at_2_63:
  "Writes (new_saver 1)
     [replicate 4611686018427387904 (CHR ''x''), replicate 4611686018427387904 (CHR ''x''), ''xx'']
     = Returns \<lparr>N = 1, prefix = ''x'', suffix = ''x'', suffixOff = 0, skipped = 9223372036854775808\<rparr>
   \<and> sint (9223372036854775808 :: 64 word) = - 9223372036854775808
   \<and> int (length (concat [replicate 4611686018427387904 (CHR ''x''),
                           replicate 4611686018427387904 (CHR ''x''), ''xx'']))
       - (int (length ''x'') + int (length ''x'')) = 9223372036854775808"
  by (simp add: new_saver_def Write_def fill_def minInt_def Let_def Write_loop.simps)

text \<open>
  C5. With capacity 4, writing the ten bytes \<open>ABCDEFGHIJ\<close> leaves the prefix \<open>ABCD\<close>, the
  suffix \<open>GHIJ\<close> and \<open>skipped = 2\<close>, and \<open>Bytes\<close> then returns the prefix, the line
  \<open>... omitting 2 bytes ...\<close> between two newlines, and the suffix.
\<close>

theorem Bytes_ABCDEFGHIJ:
  "Writes (new_saver 4) [''ABCDEFGHIJ'']
     = Returns \<lparr>N = 4, prefix = ''ABCD'', suffix = ''GHIJ'', suffixOff = 0, skipped = 2\<rparr>
   \<and> Bytes \<lparr>N = 4, prefix = ''ABCD'', suffix = ''GHIJ'', suffixOff = 0, skipped = 2\<rparr>
     = Returns ''ABCD\<newline>... omitting 2 bytes ...\<newline>GHIJ''"
  by (simp add: new_saver_def Write_def fill_def minInt_def Let_def Write_loop.simps
        Bytes_def FormatInt_def format_nat.simps digit_def)

text \<open>
  C6. When the writes hold at most \<open>n\<close> bytes in total, every call returns and \<open>Bytes\<close>
  returns the bytes written, in order, without a marker.
\<close>

theorem Bytes_of_short_stream:
  assumes "int (length (concat ps)) \<le> n"
  shows "\<exists>w. Writes (new_saver n) ps = Returns w \<and> Bytes w = Returns (concat ps)"
proof -
  have "Writes (new_saver n) ps = Returns ((new_saver n)\<lparr>prefix := prefix (new_saver n) @ concat ps\<rparr>)"
    using assms by (intro Writes_small) (simp_all add: new_saver_def)
  then show ?thesis by (simp add: new_saver_def Bytes_def)
qed

theorem Bytes_of_short_stream_witness:
  "int (length (concat [''AB'', ''C''])) \<le> 4
   \<and> (\<exists>w. Writes (new_saver 4) [''AB'', ''C''] = Returns w \<and> Bytes w = Returns ''ABC'')"
proof -
  have h: "int (length (concat [''AB'', ''C''])) \<le> 4" by simp
  from Bytes_of_short_stream [OF h] h show ?thesis by simp
qed

text \<open>
  C7. After writes to a buffer of capacity \<open>n > 0\<close> that leave \<open>skipped > 0\<close> (the counter
  read as a signed number), \<open>Bytes\<close> returns the prefix, then a newline, \<open>... omitting\<close>, the decimal digits of \<open>skipped\<close>,
  \<open>bytes ...\<close> and a newline, then the ring read from its cursor with wrap-around; that
  last segment is the last \<open>n\<close> bytes of the written stream, in the order written.
\<close>

theorem Bytes_with_marker:
  assumes "0 < n" "Writes (new_saver n) ps = Returns w" "0 < sint (skipped w)"
  shows "Bytes w = Returns (prefix w @ ''\<newline>... omitting '' @ FormatInt (sint (skipped w))
                             @ '' bytes ...\<newline>''
                             @ drop (nat (suffixOff w)) (suffix w) @ take (nat (suffixOff w)) (suffix w))
         \<and> drop (nat (suffixOff w)) (suffix w) @ take (nat (suffixOff w)) (suffix w)
             = drop (length (concat ps) - nat n) (concat ps)
         \<and> nat n \<le> length (concat ps)
         \<and> prefix w = take (nat n) (concat ps)"
proof -
  from Writes_inv [OF assms(1) new_saver_inv [OF assms(1)], of ps] assms(2)
  have inv: "saver_inv n (concat ps) w" by simp
  note l = saver_inv_lengths [OF assms(1) inv]
  define cnt where "cnt = int (length (concat ps)) - (int (length (prefix w)) + int (length (suffix w)))"
  note c = saver_inv_count [OF assms(1) inv, folded cnt_def]
  have nz: "skipped w \<noteq> 0" using assms(3) by auto
  have "cnt \<noteq> 0"
  proof
    assume "cnt = 0"
    with c(1) have "skipped w = 0" by simp
    with nz show False ..
  qed
  with c(2,3) have big: "2 * nat n < length (concat ps)" by linarith
  then have ls: "length (suffix w) = nat n" unfolding l(2) by simp
  have off: "0 \<le> suffixOff w" "suffixOff w < n"
    using inv assms(1) by (simp_all add: saver_inv_def ring_inv_def)
  have "Bytes w = Returns (prefix w @ ''\<newline>... omitting '' @ FormatInt (sint (skipped w))
                             @ '' bytes ...\<newline>''
                             @ drop (nat (suffixOff w)) (suffix w) @ take (nat (suffixOff w)) (suffix w))"
    using assms(1) nz ls off by (auto simp: Bytes_def)
  moreover have "chron w = drop (length (concat ps) - nat n) (concat ps)"
    using l(3) ls by simp
  moreover have "prefix w = take (nat n) (concat ps)"
    using inv by (simp add: saver_inv_def)
  ultimately show ?thesis using big by (simp add: chron_def)
qed

theorem Bytes_with_marker_witness:
  "(0::int) < 4
   \<and> Writes (new_saver 4) [''ABC'', ''DEFGHIJ'', ''KL'']
       = Returns \<lparr>N = 4, prefix = ''ABCD'', suffix = ''KLIJ'', suffixOff = 2, skipped = 4\<rparr>
   \<and> Bytes \<lparr>N = 4, prefix = ''ABCD'', suffix = ''KLIJ'', suffixOff = 2, skipped = 4\<rparr>
       = Returns ''ABCD\<newline>... omitting 4 bytes ...\<newline>IJKL''"
proof -
  have h: "(0::int) < 4" by simp
  have e: "Writes (new_saver 4) [''ABC'', ''DEFGHIJ'', ''KL'']
             = Returns \<lparr>N = 4, prefix = ''ABCD'', suffix = ''KLIJ'', suffixOff = 2, skipped = 4\<rparr>"
    by (simp add: new_saver_def Write_def fill_def minInt_def Let_def Write_loop.simps)
  from Bytes_with_marker [OF h e] h e show ?thesis
    by (simp add: FormatInt_def format_nat.simps digit_def)
qed

text \<open>
  C9, as the code has it. After any writes to a buffer of capacity \<open>n > 0\<close> the cursor
  \<open>suffixOff\<close> lies in \<open>[0, n)\<close>. While \<open>skipped = 0\<close> and fewer than \<open>2 ^ 64\<close> bytes were
  written and not retained, the cursor is 0 and the ring has not wrapped: the suffix holds
  the bytes after the first \<open>n\<close> in the order written, so that prefix followed by suffix,
  which \<open>Bytes\<close> returns then, is the written stream.
\<close>

theorem cursor_stays_zero_until_skipped:
  assumes "0 < n" "Writes (new_saver n) ps = Returns w"
  shows "0 \<le> suffixOff w \<and> suffixOff w < n
         \<and> (skipped w = 0
              \<and> int (length (concat ps)) - (int (length (prefix w)) + int (length (suffix w))) < 2 ^ 64
              \<longrightarrow>
              suffixOff w = 0 \<and> suffix w = drop (nat n) (concat ps)
              \<and> prefix w @ suffix w = concat ps \<and> Bytes w = Returns (concat ps))"
proof -
  from Writes_inv [OF assms(1) new_saver_inv [OF assms(1)], of ps] assms(2)
  have inv: "saver_inv n (concat ps) w" by simp
  note l = saver_inv_lengths [OF assms(1) inv]
  define cnt where "cnt = int (length (concat ps)) - (int (length (prefix w)) + int (length (suffix w)))"
  note c = saver_inv_count [OF assms(1) inv, folded cnt_def]
  have off: "0 \<le> suffixOff w" "suffixOff w < n"
    using inv assms(1) by (simp_all add: saver_inv_def ring_inv_def)
  have pre: "prefix w = take (nat n) (concat ps)"
    using inv by (simp add: saver_inv_def)
  have z: "suffixOff w = 0 \<and> suffix w = drop (nat n) (concat ps)
             \<and> prefix w @ suffix w = concat ps \<and> Bytes w = Returns (concat ps)"
    if s0: "skipped w = 0" and lt: "cnt < 2 ^ 64"
  proof -
    from c(1) s0 have "(word_of_int cnt :: 64 word) = 0" by simp
    then have "(2::int) ^ 64 dvd cnt"
      unfolding word_of_int_eq_0_iff by simp
    with lt c(2) have "cnt = 0"
      using zdvd_not_zless [of cnt "2 ^ 64"] by (cases "cnt = 0") auto
    with c(3) have small: "length (concat ps) - nat n \<le> nat n" by simp
    have ri: "ring_inv (nat n) (drop (nat n) (concat ps)) w"
      using inv by (simp add: saver_inv_def)
    have o: "suffixOff w = 0" using ri small by (simp add: ring_inv_def)
    have "chron w = drop (nat n) (concat ps)" using ri small by (simp add: ring_inv_def)
    with o have s: "suffix w = drop (nat n) (concat ps)" by (simp add: chron_def)
    with pre have cc: "prefix w @ suffix w = concat ps" by simp
    have "Bytes w = Returns (concat ps)"
    proof (cases "suffix w = []")
      case True
      with cc show ?thesis by (simp add: Bytes_def)
    next
      case False
      with cc s0 show ?thesis by (simp add: Bytes_def)
    qed
    with o s cc show ?thesis by simp
  qed
  with off show ?thesis unfolding cnt_def by blast
qed

theorem cursor_stays_zero_until_skipped_witness:
  "(0::int) < 4
   \<and> Writes (new_saver 4) [''ABC'', ''DEF''] = Returns \<lparr>N = 4, prefix = ''ABCD'', suffix = ''EF'', suffixOff = 0, skipped = 0\<rparr>
   \<and> Bytes \<lparr>N = 4, prefix = ''ABCD'', suffix = ''EF'', suffixOff = 0, skipped = 0\<rparr> = Returns ''ABCDEF''"
proof -
  have h: "(0::int) < 4" by simp
  have e: "Writes (new_saver 4) [''ABC'', ''DEF'']
             = Returns \<lparr>N = 4, prefix = ''ABCD'', suffix = ''EF'', suffixOff = 0, skipped = 0\<rparr>"
    by (simp add: new_saver_def Write_def fill_def minInt_def Let_def Write_loop.simps)
  from cursor_stays_zero_until_skipped [OF h e] h e show ?thesis by simp
qed

text \<open>
  C9, as the claim states it, fails once \<open>2 ^ 64\<close> bytes have been dropped. With capacity 4,
  after \<open>ABCDEFGH\<close> and \<open>IJ\<close> the cursor is 2 and \<open>skipped\<close> is 2; two writes of
  \<open>2 ^ 63 - 1\<close> bytes, the last one ending in \<open>WXYZ\<close>, leave the cursor at 2 and bring the
  counter to \<open>2 ^ 64\<close>, which is 0. \<open>Bytes\<close> then returns prefix and suffix without a marker,
  the suffix in ring order \<open>YZWX\<close> and not in the order written.
\<close>

theorem skipped_wraps_to_zero:
  "Writes (new_saver 4)
     [''ABCDEFGH'', ''IJ'', replicate 9223372036854775807 (CHR ''x''),
      replicate 9223372036854775803 (CHR ''x'') @ ''WXYZ'']
     = Returns \<lparr>N = 4, prefix = ''ABCD'', suffix = ''YZWX'', suffixOff = 2, skipped = 0\<rparr>
   \<and> Bytes \<lparr>N = 4, prefix = ''ABCD'', suffix = ''YZWX'', suffixOff = 2, skipped = 0\<rparr>
       = Returns ''ABCDYZWX''"
  by (simp add: new_saver_def Write_def fill_def minInt_def Let_def Write_loop.simps Bytes_def)


section \<open>Properties of the coordinator\<close>

lemma Start_cases:
  assumes "Start os w = Returns (err, w')"
  shows "(\<exists>e. ctx (self w) = Some (Some e) \<and> err = Some e \<and> w' = w)
       \<or> (ctx (self w) = Some None \<and> err \<noteq> None
            \<and> w' = w\<lparr>self := (self w)\<lparr>cmd := snd (cmd_Start os (cmd (self w)))\<rparr>\<rparr>)
       \<or> (ctx (self w) = Some None \<and> err = None
            \<and> w' = w\<lparr>self := (self w)\<lparr>cmd := snd (cmd_Start os (cmd (self w)))\<rparr>,
                     watchers := watchers w + 1\<rparr>)"
  using assms
  by (auto simp: Start_def split: option.splits prod.splits)

lemma Wait_preserves:
  assumes "Wait os w = Returns (err, w')"
  shows "ctx (self w') = ctx (self w)" "cancel (self w') = cancel (self w)"
    "watchers w' = watchers w" "effects w' = effects w" "waitDone (self w')"
  using assms
  by (auto simp: Wait_def split: outcome.splits if_splits)

lemma exec_measure:
  assumes "exec os w ev = Some w'"
  shows "watchers w' + length (effects w') \<le> watchers w + length (effects w)"
proof (cases ev)
  case (Cancel e)
  with assms show ?thesis by (auto split: option.splits)
next
  case CallWait
  with assms obtain err where "Wait os w = Returns (err, w')"
    by (auto split: outcome.splits)
  from Wait_preserves(3,4) [OF this] show ?thesis by simp
next
  case (Select sc)
  with assms show ?thesis
    by (cases sc) (auto simp: watcher_def split: if_splits option.splits outcome.splits)
qed

lemma run_measure:
  "run os w evs = Some w' \<Longrightarrow> watchers w' + length (effects w') \<le> watchers w + length (effects w)"
proof (induction evs arbitrary: w)
  case Nil
  then show ?case by simp
next
  case (Cons ev evs)
  then obtain w1 where w1: "exec os w ev = Some w1" "run os w1 evs = Some w'"
    by (auto split: option.splits)
  from exec_measure [OF w1(1)] Cons.IH [OF w1(2)] show ?case by simp
qed

lemma exec_without_watcher:
  assumes "watchers w = 0" "exec os w ev = Some w'"
  shows "watchers w' = 0 \<and> effects w' = effects w"
proof (cases ev)
  case (Cancel e)
  with assms show ?thesis by (auto split: option.splits)
next
  case CallWait
  with assms obtain err where "Wait os w = Returns (err, w')"
    by (auto split: outcome.splits)
  from Wait_preserves(3,4) [OF this] assms show ?thesis by simp
next
  case (Select sc)
  with assms show ?thesis by simp
qed

lemma run_without_watcher:
  "watchers w = 0 \<Longrightarrow> run os w evs = Some w' \<Longrightarrow> effects w' = effects w"
proof (induction evs arbitrary: w)
  case Nil
  then show ?case by simp
next
  case (Cons ev evs)
  then obtain w1 where w1: "exec os w ev = Some w1" "run os w1 evs = Some w'"
    by (auto split: option.splits)
  from exec_without_watcher [OF Cons.prems(1) w1(1)] Cons.IH [OF _ w1(2)] show ?case by simp
qed

lemma run_before_cancel:
  assumes "ctx (self w) = Some None"
    and "\<forall>ev \<in> set (takeWhile (\<lambda>ev. \<not> is_Select ev) evs). \<not> is_Cancel ev"
    and "watchers w \<le> 1"
    and "run os w evs = Some w'"
  shows "effects w' = effects w"
  using assms
proof (induction evs arbitrary: w)
  case Nil
  then show ?case by simp
next
  case (Cons ev evs)
  then obtain w1 where w1: "exec os w ev = Some w1" "run os w1 evs = Some w'"
    by (auto split: option.splits)
  show ?case
  proof (cases ev)
    case (Cancel e)
    with Cons.prems(2) show ?thesis by simp
  next
    case CallWait
    with w1(1) obtain err where wt: "Wait os w = Returns (err, w1)"
      by (auto split: outcome.splits)
    note p = Wait_preserves [OF wt]
    have "effects w' = effects w1"
      using Cons.prems CallWait p w1(2) by (intro Cons.IH) simp_all
    with p show ?thesis by simp
  next
    case (Select sc)
    with w1(1) Cons.prems(1,3) have "watchers w1 = 0 \<and> effects w1 = effects w"
      by (cases sc) (auto simp: ready_def watcher_def split: if_splits)
    with run_without_watcher [OF _ w1(2)] show ?thesis by simp
  qed
qed

text \<open>
  C1. \<open>Run\<close> does not report a failure of \<open>Start\<close>: on a coordinator whose context is
  cancelled already \<open>Start\<close> returns the context's error and \<open>Run\<close> returns nil; when the
  executable cannot be spawned \<open>Start\<close> returns the error of the spawn and \<open>Run\<close> returns
  nil as well.
\<close>

theorem Run_returns_nil_when_Start_fails:
  "Start quiet_proc cancelled_world = Returns (Some Canceled, cancelled_world)
   \<and> Run quiet_proc cancelled_world = Returns (None, cancelled_world)
   \<and> Start missing_proc live_world
       = Returns (Some (SyscallError ''executable file not found''), live_world)
   \<and> Run missing_proc live_world = Returns (None, live_world)"
  by (simp add: Run_def Start_def cmd_Start_def cancelled_world_def live_world_def FromCmd_def
        quiet_proc_def missing_proc_def fresh_cmd_def)

text \<open>
  C2. When the context is cancelled before \<open>Start\<close> is called, \<open>Start\<close> returns the
  context's error and leaves the whole state as it was, whatever the operating system
  would have answered: no process is spawned and no watcher is started.
\<close>

theorem Start_after_cancellation:
  assumes "ctx (self w) = Some (Some e)"
  shows "Start os w = Returns (Some e, w)"
  using assms by (simp add: Start_def)

theorem Start_after_cancellation_witness:
  "ctx (self cancelled_world) = Some (Some Canceled)
   \<and> Start quiet_proc cancelled_world = Returns (Some Canceled, cancelled_world)
   \<and> Process (cmd (self cancelled_world)) = None"
proof -
  have h: "ctx (self cancelled_world) = Some (Some Canceled)"
    by (simp add: cancelled_world_def FromCmd_def)
  from Start_after_cancellation [OF h, of quiet_proc] h show ?thesis
    by (simp add: cancelled_world_def FromCmd_def fresh_cmd_def)
qed

text \<open>
  C3, as the code has it. After a successful \<open>Start\<close> on a coordinator without watchers,
  in every execution the watcher kills or calls \<open>cancel\<close> at most once, and not at all when
  no cancellation happens before the watcher's \<open>select\<close> takes a case.
\<close>

theorem watcher_acts_at_most_once:
  assumes "watchers w0 = 0" "effects w0 = []"
    and "Start os w0 = Returns (None, w1)"
    and "run os w1 evs = Some w"
  shows "length (effects w) \<le> 1
         \<and> ((\<forall>ev \<in> set (takeWhile (\<lambda>ev. \<not> is_Select ev) evs). \<not> is_Cancel ev)
              \<longrightarrow> effects w = [])"
proof -
  from Start_cases [OF assms(3)] assms(1,2)
  have w1: "ctx (self w1) = Some None" "watchers w1 = 1" "effects w1 = []"
    by auto
  from run_measure [OF assms(4)] w1 have "length (effects w) \<le> 1" by simp
  moreover have "effects w = []"
    if "\<forall>ev \<in> set (takeWhile (\<lambda>ev. \<not> is_Select ev) evs). \<not> is_Cancel ev"
    using run_before_cancel [OF w1(1) that _ assms(4)] w1 by simp
  ultimately show ?thesis by blast
qed

theorem watcher_acts_at_most_once_witness:
  "watchers live_world = 0 \<and> effects live_world = []
   \<and> Start quiet_proc live_world = Returns (None, started_world)
   \<and> map_option effects (run quiet_proc started_world [CallWait, Select waitDone_closed, Cancel Canceled])
       = Some []
   \<and> takeWhile (\<lambda>ev. \<not> is_Select ev) [CallWait, Select waitDone_closed, Cancel Canceled]
       = [CallWait]"
proof -
  have s: "Start quiet_proc live_world = Returns (None, started_world)"
    by (simp add: Start_def cmd_Start_def live_world_def started_world_def FromCmd_def
          quiet_proc_def fresh_cmd_def)
  have r: "run quiet_proc started_world [CallWait, Select waitDone_closed, Cancel Canceled]
             = Some (started_world\<lparr>self := (self started_world)\<lparr>ctx := Some (Some Canceled), waitDone := True\<rparr>,
                                   watchers := 0\<rparr>)"
    by (simp add: Wait_def cmd_Wait_def started_world_def quiet_proc_def fresh_cmd_def
          ready_def watcher_def)
  have h: "watchers live_world = 0" "effects live_world = []"
    by (simp_all add: live_world_def)
  from watcher_acts_at_most_once [OF h s r] h s r show ?thesis
    by (simp add: started_world_def)
qed

text \<open>
  C3, as the claim states it, fails: \<open>Wait\<close> closes \<open>waitDone\<close> while the context is still
  live, then the context is cancelled, and only then the watcher's \<open>select\<close> runs, finds
  both channels closed and takes \<open>ctx.Done()\<close>: the process is killed although the
  wait-completed signal fired before the cancellation was observed.
\<close>

theorem watcher_kills_after_waitDone:
  "Start quiet_proc live_world = Returns (None, started_world)
   \<and> map_option (waitDone \<circ> self) (run quiet_proc started_world [CallWait]) = Some True
   \<and> map_option (ctx \<circ> self) (run quiet_proc started_world [CallWait]) = Some (Some None)
   \<and> map_option effects (run quiet_proc started_world [CallWait]) = Some []
   \<and> map_option effects
        (run quiet_proc started_world [CallWait, Cancel Canceled, Select ctx_Done])
       = Some [Kill 1]"
  by (simp add: Start_def cmd_Start_def live_world_def started_world_def FromCmd_def
        quiet_proc_def fresh_cmd_def Wait_def cmd_Wait_def ready_def watcher_def)

text \<open>
  C8. When \<open>Stdout\<close> or \<open>Stderr\<close> of the command is attached already, \<open>CombinedOutput\<close>
  returns no bytes and the error \<open>exec: Stdout already set\<close> (or \<open>exec: Stderr already set\<close>
  when only \<open>Stderr\<close> is attached), and the state is unchanged, whatever the operating
  system would have answered: nothing is spawned and no stream is attached. The state being
  the same, a second call gives the same result.
\<close>

theorem CombinedOutput_when_attached:
  assumes "Stdout (cmd (self w)) \<noteq> None \<or> Stderr (cmd (self w)) \<noteq> None"
  shows "CombinedOutput os w
           = Returns (([], Some (errorString (if Stdout (cmd (self w)) \<noteq> None
                                               then ''exec: Stdout already set''
                                               else ''exec: Stderr already set''))), w)"
  using assms by (auto simp: CombinedOutput_def)

theorem CombinedOutput_when_attached_witness:
  "Stdout (cmd (self bound_world)) = None \<and> Stderr (cmd (self bound_world)) = Some 0
   \<and> CombinedOutput quiet_proc bound_world
       = Returns (([], Some (errorString ''exec: Stderr already set'')), bound_world)"
proof -
  have h: "Stdout (cmd (self bound_world)) \<noteq> None \<or> Stderr (cmd (self bound_world)) \<noteq> None"
    by (simp add: bound_world_def FromCmd_def fresh_cmd_def)
  from CombinedOutput_when_attached [OF h, of quiet_proc] h show ?thesis
    by (simp add: bound_world_def FromCmd_def fresh_cmd_def)
qed

text \<open>
  C10. \<open>Output\<close> does not read its parameter \<open>ctx\<close>: with any two arguments, nil and
  cancelled contexts included, it gives the same result and the same state.
\<close>

theorem Output_ignores_its_ctx:
  "Output cx1 os w = Output cx2 os w"
  by (simp add: Output_def)


end
